theory Spec2Isabelle
  imports Main "HOL-Library.Stream"
begin

unbundle bit_operations_syntax

section \<open>The operating-system interface\<close>

text \<open>
  The monitor talks to the kernel through six library calls. Each call the program issues
  is recorded with its arguments; \<open>Read fd off cnt\<close> stands for
  \<^verbatim>\<open>read(fd, &buf[off], cnt)\<close>, \<open>Poll fd events timeout\<close> for a \<^verbatim>\<open>poll\<close> on the single
  descriptor \<open>fd\<close>, and \<open>Fprintf_stderr\<close> for the usage message.
\<close>

datatype call =
    Inotify_init
  | Inotify_add_watch int string nat
  | Poll int nat int
  | Read int int nat
  | Kill int int
  | Fprintf_stderr string

text \<open>
  What a call reports back: \<open>Ret n\<close> is a successful return of the non-negative value \<open>n\<close>
  (a descriptor, a watch descriptor, a number of ready descriptors, a number of bytes,
  or \<open>0\<close>), \<open>Err e\<close> is the return value \<open>-1\<close> with \<^verbatim>\<open>errno\<close> set to \<open>e\<close>.
\<close>

datatype reply = Ret nat | Err int

text \<open>
  The world the process runs in: the replies the kernel is going to give, in the order the
  calls are made; the calls made so far, each with its reply; and the current \<^verbatim>\<open>errno\<close>.
\<close>

record world =
  kernel :: "reply stream"
  trace :: "(call \<times> reply) list"
  errno :: int

definition sys :: "call \<Rightarrow> world \<Rightarrow> int \<times> world" where
  "sys c w =
     (case shd (kernel w) of
        Ret n \<Rightarrow> (int n, w\<lparr>kernel := stl (kernel w), trace := trace w @ [(c, Ret n)]\<rparr>)
      | Err e \<Rightarrow>
          (- 1, w\<lparr>kernel := stl (kernel w), trace := trace w @ [(c, Err e)], errno := e\<rparr>))"

subsection \<open>Constants of the system headers\<close>

definition EINVAL :: int where "EINVAL = 22"
definition ESRCH :: int where "ESRCH = 3"
definition EINTR :: int where "EINTR = 4"
definition EMFILE :: int where "EMFILE = 24"
definition ENOENT :: int where "ENOENT = 2"
definition SIGUSR1 :: int where "SIGUSR1 = 10"
definition POLLIN :: nat where "POLLIN = 1"
definition IN_MODIFY :: nat where "IN_MODIFY = 2"
definition IN_CREATE :: nat where "IN_CREATE = 256"

text \<open>
  \<^verbatim>\<open>sizeof(struct inotify_event)\<close>: an \<^verbatim>\<open>int\<close> and three \<^verbatim>\<open>uint32_t\<close> fields in front of the
  flexible \<^verbatim>\<open>name\<close> member.
\<close>

definition sizeof_inotify_event :: nat where "sizeof_inotify_event = 16"

text \<open>Conversion of a signed value to the 64-bit unsigned \<^verbatim>\<open>size_t\<close>.\<close>

definition size_t_of :: "int \<Rightarrow> nat" where
  "size_t_of x = nat (x mod 2 ^ 64)"

section \<open>The program\<close>

definition usage_text :: string where
  "usage_text =
     ''Usage: m5stat-monitor PATH PID'' @ [CHR 0x0A] @ [CHR 0x0A] @
     ''       PATH   Path to M5 stats.txt'' @ [CHR 0x0A] @
     ''       PID    PID of the process to notify. On each modification'' @ [CHR 0x0A] @
     ''              to the monitored file SIGUSR1 is sent to PID.'' @ [CHR 0x0A]"

definition usage :: "world \<Rightarrow> world" where
  "usage w = snd (sys (Fprintf_stderr usage_text) w)"

text \<open>
  \<^verbatim>\<open>parse_argv\<close>: \<open>argv\<close> is the whole argument vector, program name included, so \<^verbatim>\<open>argc\<close>
  is its length. The two out-parameters are returned as \<open>Inr (m5stats_file, pid)\<close> with the
  status \<open>0\<close>; \<open>Inl status\<close> is the non-zero status, with the out-parameters left unwritten.
  The C library's \<^verbatim>\<open>atoi\<close> is a parameter.
\<close>

definition parse_argv ::
  "(string \<Rightarrow> int) \<Rightarrow> string list \<Rightarrow> world \<Rightarrow> (int + string \<times> int) \<times> world" where
  "parse_argv atoi argv w =
     (if length argv \<noteq> 3 then (Inl EINVAL, usage w)
      else (Inr (argv ! 1, atoi (argv ! 2)), w))"

definition create_file_monitor :: "string \<Rightarrow> world \<Rightarrow> int \<times> world" where
  "create_file_monitor file w =
     (case sys Inotify_init w of
        (fd, w1) \<Rightarrow>
          if fd < 0 then (fd, w1)
          else (case sys (Inotify_add_watch fd file (IN_MODIFY OR IN_CREATE)) w1 of
                  (wd, w2) \<Rightarrow> if wd < 0 then (wd, w2) else (fd, w2)))"

text \<open>
  The loop of \<^verbatim>\<open>read_inotify_event\<close>. \<open>read_step\<close> is one pass through it with \<open>len\<close> bytes
  accumulated: the test of the loop, the read, the test of its result and the addition to
  \<open>len\<close>. The pass either leaves the function with a status (\<open>Returned\<close>) or ends with the loop
  still running (\<open>Running\<close>) and a new \<open>len\<close>. The comparison and the subtraction are done in
  \<^verbatim>\<open>size_t\<close>, as in C. The record itself is not part of the state: the program stores the
  bytes in a local \<^verbatim>\<open>struct inotify_event\<close> and never reads them; what the trace keeps of each
  read is where in the record it writes and how many bytes it asks for and gets.
\<close>

datatype progress = Running int world | Returned int world

definition read_step :: "int \<Rightarrow> int \<Rightarrow> world \<Rightarrow> progress" where
  "read_step fd len w =
     (if size_t_of len \<noteq> sizeof_inotify_event then
        (case sys (Read fd len (size_t_of (int sizeof_inotify_event - len))) w of
           (res, w') \<Rightarrow>
             if res < 0 then Returned (errno w') w' else Running (len + res) w')
      else Returned 0 w)"

text \<open>
  The loop repeats the pass until it returns; it is started with \<open>len = 0\<close>. A run that never
  leaves the loop has the value \<open>None\<close>.
\<close>

partial_function (option) read_loop ::
  "int \<Rightarrow> int \<Rightarrow> world \<Rightarrow> (int \<times> world) option" where
  "read_loop fd len w =
     (case read_step fd len w of
        Returned status w' \<Rightarrow> Some (status, w')
      | Running len' w' \<Rightarrow> read_loop fd len' w')"

text \<open>
  The same loop watched from outside: where the reader is after at most \<open>n\<close> passes, whether
  or not it ever returns.
\<close>

fun read_run :: "nat \<Rightarrow> int \<Rightarrow> int \<Rightarrow> world \<Rightarrow> progress" where
  "read_run 0 fd len w = Running len w"
| "read_run (Suc n) fd len w =
     (case read_step fd len w of
        Returned status w' \<Rightarrow> Returned status w'
      | Running len' w' \<Rightarrow> read_run n fd len' w')"

fun world_after :: "progress \<Rightarrow> world" where
  "world_after (Running len w) = w"
| "world_after (Returned status w) = w"

definition read_inotify_event :: "int \<Rightarrow> world \<Rightarrow> (int \<times> world) option" where
  "read_inotify_event fd w = read_loop fd 0 w"

definition handle_inotify_event :: "int \<Rightarrow> int \<Rightarrow> world \<Rightarrow> (int \<times> world) option" where
  "handle_inotify_event fd pid w =
     (case read_inotify_event fd w of
        None \<Rightarrow> None
      | Some (status, w1) \<Rightarrow>
          if status \<noteq> 0 then Some (status, w1)
          else (case sys (Kill pid SIGUSR1) w1 of
                  (r, w2) \<Rightarrow> if r \<noteq> 0 then Some (errno w2, w2) else Some (0, w2)))"

partial_function (option) monitor_file ::
  "int \<Rightarrow> int \<Rightarrow> world \<Rightarrow> (int \<times> world) option" where
  "monitor_file fd pid w =
     (case sys (Poll fd POLLIN (- 1)) w of
        (status, w1) \<Rightarrow>
          if status < 0 then Some (errno w1, w1)
          else (case handle_inotify_event fd pid w1 of
                  None \<Rightarrow> None
                | Some (status', w2) \<Rightarrow>
                    if status' \<noteq> 0 then Some (status', w2) else monitor_file fd pid w2))"

text \<open>
  \<^verbatim>\<open>main\<close>: the value it returns is the exit status of the process. Like the loop it ends
  in, it has the value \<open>None\<close> when it never returns.
\<close>

definition main ::
  "(string \<Rightarrow> int) \<Rightarrow> string list \<Rightarrow> world \<Rightarrow> (int \<times> world) option" where
  "main atoi argv w =
     (case parse_argv atoi argv w of
        (Inl status, w0) \<Rightarrow> Some (status, w0)
      | (Inr (m5stats_file, pid), w0) \<Rightarrow>
          (case create_file_monitor m5stats_file w0 of
             (fd, w1) \<Rightarrow> if fd < 0 then Some (- fd, w1) else monitor_file fd pid w1))"

section \<open>Vocabulary of the properties\<close>

text \<open>
  The reads of one run of the reader that starts with \<open>len\<close> bytes accumulated and receives
  \<open>rs\<close> bytes, read after read: each asks for what is missing, at the offset reached.
\<close>

fun read_events :: "int \<Rightarrow> int \<Rightarrow> nat list \<Rightarrow> (call \<times> reply) list" where
  "read_events fd len [] = []"
| "read_events fd len (r # rs) =
     (Read fd len (nat (int sizeof_inotify_event - len)), Ret r)
       # read_events fd (len + int r) rs"

text \<open>
  One event as the loop sees it: the value \<open>p\<close> the wait returns and the sizes \<open>rs\<close> of the
  reads the record arrives in. \<open>event_replies\<close> is what the kernel answers when the signal
  is delivered too, \<open>event_trace\<close> what the loop does for the event.
\<close>

fun event_replies :: "nat \<times> nat list \<Rightarrow> reply list" where
  "event_replies (p, rs) = Ret p # map Ret rs @ [Ret 0]"

fun event_trace :: "int \<Rightarrow> int \<Rightarrow> nat \<times> nat list \<Rightarrow> (call \<times> reply) list" where
  "event_trace fd pid (p, rs) =
     (Poll fd POLLIN (- 1), Ret p) # read_events fd 0 rs @ [(Kill pid SIGUSR1, Ret 0)]"

text \<open>An event whose record arrives whole: no empty read, and the sizes add up to the record.\<close>

fun complete_event :: "nat \<times> nat list \<Rightarrow> bool" where
  "complete_event (p, rs) = (list_all (\<lambda>r. 0 < r) rs \<and> sum_list rs = sizeof_inotify_event)"

fun is_kill :: "call \<times> reply \<Rightarrow> bool" where
  "is_kill (Kill pid sig, r) = True"
| "is_kill (c, r) = False"

text \<open>A call that reports failure to the program: \<^verbatim>\<open>kill\<close> by any non-zero value.\<close>

fun failed :: "call \<times> reply \<Rightarrow> bool" where
  "failed (Kill pid sig, r) = (r \<noteq> Ret 0)"
| "failed (c, Err e) = True"
| "failed (c, Ret n) = False"

text \<open>The kernel never hands a read more bytes than it asked for.\<close>

fun posix_read :: "call \<times> reply \<Rightarrow> bool" where
  "posix_read (Read fd off cnt, Ret n) = (n \<le> cnt)"
| "posix_read (c, r) = True"

text \<open>The same, and a call that fails sets \<^verbatim>\<open>errno\<close> to a positive error number.\<close>

fun posix_reply :: "call \<times> reply \<Rightarrow> bool" where
  "posix_reply (c, Err e) = (0 < e)"
| "posix_reply (c, Ret n) = posix_read (c, Ret n)"

text \<open>A read whose destination \<^verbatim>\<open>buf[off .. off + cnt)\<close> lies inside the record.\<close>

fun in_buffer :: "call \<times> reply \<Rightarrow> bool" where
  "in_buffer (Read fd off cnt, r) = (0 \<le> off \<and> off + int cnt \<le> int sizeof_inotify_event)"
| "in_buffer (c, r) = False"

subsection \<open>Sample inputs\<close>

text \<open>A decimal \<^verbatim>\<open>atoi\<close> for the samples: the value of the leading digits, \<open>0\<close> without any.\<close>

fun digits_value :: "int \<Rightarrow> string \<Rightarrow> int" where
  "digits_value acc [] = acc"
| "digits_value acc (c # cs) =
     (if (48::nat) \<le> of_char c \<and> (of_char c :: nat) \<le> 57
      then digits_value (10 * acc + (int (of_char c) - 48)) cs
      else acc)"

definition sample_atoi :: "string \<Rightarrow> int" where
  "sample_atoi s = digits_value 0 s"

definition sample_argv :: "string list" where
  "sample_argv = [''m5stats-monitor'', ''/tmp/stats.txt'', ''4242'']"

definition world_of :: "reply stream \<Rightarrow> world" where
  "world_of k = \<lparr>kernel = k, trace = [], errno = 0\<rparr>"

text \<open>\<^verbatim>\<open>inotify_init\<close> fails for lack of descriptors.\<close>

definition no_channel_world :: world where
  "no_channel_world = world_of (Err EMFILE ## sconst (Ret 0))"

text \<open>Seven bytes of a record arrive, then every read reports end of stream.\<close>

definition closed_channel_world :: world where
  "closed_channel_world = world_of (Ret 7 ## sconst (Ret 0))"

text \<open>The record arrives in three short reads; the signal is delivered.\<close>

definition split_record_world :: world where
  "split_record_world = world_of (map Ret [3, 5, 8] @- Ret 0 ## sconst (Err EINTR))"

text \<open>Ten bytes arrive, with an empty read in between, and then nothing more.\<close>

definition stalled_record_world :: world where
  "stalled_record_world = world_of (map Ret [6, 0, 4] @- sconst (Ret 0))"

text \<open>The record arrives in one read; the signal is delivered.\<close>

definition whole_record_world :: world where
  "whole_record_world = world_of (Ret 16 ## Ret 0 ## sconst (Err EINTR))"

text \<open>The channel is created as descriptor 3; the path cannot be registered.\<close>

definition no_watch_world :: world where
  "no_watch_world = world_of (Ret 3 ## Err ENOENT ## sconst (Ret 0))"

text \<open>Three events, the second in two reads; then the wait is interrupted.\<close>

definition three_events_world :: world where
  "three_events_world =
     world_of (concat (map event_replies [(1, [16]), (1, [4, 12]), (2, [16])])
       @- Err EINTR ## sconst (Ret 0))"

text \<open>One event; then the wait is interrupted.\<close>

definition interrupted_wait_world :: world where
  "interrupted_wait_world =
     world_of (concat (map event_replies [(1, [16])]) @- Err EINTR ## sconst (Ret 0))"

text \<open>One event; then a read of the second record is interrupted after ten bytes.\<close>

definition interrupted_read_world :: world where
  "interrupted_read_world =
     world_of (concat (map event_replies [(1, [16])])
       @- Ret 1 ## map Ret [6, 0, 4] @- Err EINTR ## sconst (Ret 0))"

text \<open>The watch is established; the first wait is interrupted.\<close>

definition interrupted_start_world :: world where
  "interrupted_start_world = world_of (Ret 3 ## Ret 1 ## Err EINTR ## sconst (Ret 0))"

text \<open>Events without end, each record in one read, each signal delivered.\<close>

definition steady_world :: world where
  "steady_world = world_of (flat (smap event_replies (sconst (1, [16]))))"

text \<open>A process-id argument that is no number, and a world in which the signal finds no process.\<close>

definition unparsed_pid_argv :: "string list" where
  "unparsed_pid_argv = [''m5stats-monitor'', ''/tmp/stats.txt'', ''not-a-pid'']"

definition no_target_world :: world where
  "no_target_world = world_of (Ret 3 ## Ret 1 ## Ret 1 ## Ret 16 ## Err ESRCH ## sconst (Ret 0))"

section \<open>Basic facts\<close>

lemma sys_Ret:
  "shd (kernel w) = Ret n \<Longrightarrow>
   sys c w = (int n, w\<lparr>kernel := stl (kernel w), trace := trace w @ [(c, Ret n)]\<rparr>)"
  by (simp add: sys_def)

lemma sys_Err:
  "shd (kernel w) = Err e \<Longrightarrow>
   sys c w = (- 1, w\<lparr>kernel := stl (kernel w), trace := trace w @ [(c, Err e)], errno := e\<rparr>)"
  by (simp add: sys_def)

lemma sys_trace:
  "sys c w = (res, w') \<Longrightarrow> trace w' = trace w @ [(c, shd (kernel w))]"
  by (auto simp: sys_def split: reply.splits)

lemma sys_kernel:
  "sys c w = (res, w') \<Longrightarrow> kernel w' = stl (kernel w)"
  by (auto simp: sys_def split: reply.splits)

lemma sys_negative:
  "sys c w = (res, w') \<Longrightarrow> res < 0 \<longleftrightarrow> (\<exists>e. shd (kernel w) = Err e)"
  by (auto simp: sys_def split: reply.splits)

section \<open>One step of the reader's loop\<close>

text \<open>The loop as the source writes it, the pass spelled out.\<close>

lemma read_loop_unfold:
  "read_loop fd len w =
     (if size_t_of len \<noteq> sizeof_inotify_event then
        (case sys (Read fd len (size_t_of (int sizeof_inotify_event - len))) w of
           (res, w') \<Rightarrow>
             if res < 0 then Some (errno w', w') else read_loop fd (len + res) w')
      else Some (0, w))"
  by (subst read_loop.simps) (simp add: read_step_def split: prod.splits)

lemma read_loop_done:
  "len = int sizeof_inotify_event \<Longrightarrow> read_loop fd len w = Some (0, w)"
  by (subst read_loop.simps) (simp add: read_step_def size_t_of_def sizeof_inotify_event_def)

lemma read_loop_Ret:
  assumes "0 \<le> len" "len < int sizeof_inotify_event" "shd (kernel w) = Ret n"
  shows "read_loop fd len w =
    read_loop fd (len + int n)
      (w\<lparr>kernel := stl (kernel w),
         trace := trace w @ [(Read fd len (nat (int sizeof_inotify_event - len)), Ret n)]\<rparr>)"
proof -
  from assms(1,2) have a: "size_t_of len \<noteq> sizeof_inotify_event"
    by (simp add: size_t_of_def sizeof_inotify_event_def)
  from assms(1,2) have b: "size_t_of (int sizeof_inotify_event - len) = nat (int sizeof_inotify_event - len)"
    by (simp add: size_t_of_def sizeof_inotify_event_def)
  show ?thesis
    by (subst read_loop.simps) (simp add: read_step_def a b sys_Ret [OF assms(3)])
qed

lemma read_loop_Err:
  assumes "0 \<le> len" "len < int sizeof_inotify_event" "shd (kernel w) = Err e"
  shows "read_loop fd len w =
    Some (e, w\<lparr>kernel := stl (kernel w),
         trace := trace w @ [(Read fd len (nat (int sizeof_inotify_event - len)), Err e)],
         errno := e\<rparr>)"
proof -
  from assms(1,2) have a: "size_t_of len \<noteq> sizeof_inotify_event"
    by (simp add: size_t_of_def sizeof_inotify_event_def)
  from assms(1,2) have b: "size_t_of (int sizeof_inotify_event - len) = nat (int sizeof_inotify_event - len)"
    by (simp add: size_t_of_def sizeof_inotify_event_def)
  show ?thesis
    by (subst read_loop.simps) (simp add: read_step_def a b sys_Err [OF assms(3)])
qed

section \<open>The reader on a channel that delivers the record\<close>

lemma read_loop_chunks:
  assumes "\<forall>r \<in> set rs. 0 < r" "0 \<le> len"
    "len + int (sum_list rs) = int sizeof_inotify_event"
    "kernel w = map Ret rs @- k"
  shows "read_loop fd len w =
    Some (0, w\<lparr>kernel := k, trace := trace w @ read_events fd len rs\<rparr>)"
  using assms
proof (induction rs arbitrary: len w)
  case Nil
  then have "read_loop fd len w = Some (0, w)"
    by (simp add: read_loop_done)
  moreover from Nil have "w\<lparr>kernel := k, trace := trace w @ read_events fd len []\<rparr> = w"
    by simp
  ultimately show ?case by simp
next
  case (Cons r rs)
  let ?w1 = "w\<lparr>kernel := stl (kernel w),
         trace := trace w @ [(Read fd len (nat (int sizeof_inotify_event - len)), Ret r)]\<rparr>"
  from Cons.prems have lt: "len < int sizeof_inotify_event" and hd: "shd (kernel w) = Ret r"
    and tl: "kernel ?w1 = map Ret rs @- k"
    by auto
  have step: "read_loop fd len w = read_loop fd (len + int r) ?w1"
    using Cons.prems(2) lt hd by (rule read_loop_Ret)
  from Cons.prems have "read_loop fd (len + int r) ?w1 =
    Some (0, ?w1\<lparr>kernel := k, trace := trace ?w1 @ read_events fd (len + int r) rs\<rparr>)"
    by (intro Cons.IH tl) auto
  with step show ?case
    by simp
qed

lemma read_loop_chunks_Err:
  assumes "0 \<le> len"
    "len + int (sum_list rs) < int sizeof_inotify_event"
    "kernel w = map Ret rs @- Err e ## k"
  shows "read_loop fd len w =
    Some (e, w\<lparr>kernel := k,
       trace := trace w @ read_events fd len rs @
         [(Read fd (len + int (sum_list rs))
             (nat (int sizeof_inotify_event - (len + int (sum_list rs)))), Err e)],
       errno := e\<rparr>)"
  using assms
proof (induction rs arbitrary: len w)
  case Nil
  then have "shd (kernel w) = Err e" "stl (kernel w) = k" "len < int sizeof_inotify_event"
    by auto
  with Nil.prems(1) show ?case
    by (simp add: read_loop_Err)
next
  case (Cons r rs)
  let ?w1 = "w\<lparr>kernel := stl (kernel w),
         trace := trace w @ [(Read fd len (nat (int sizeof_inotify_event - len)), Ret r)]\<rparr>"
  from Cons.prems have lt: "len < int sizeof_inotify_event" and hd: "shd (kernel w) = Ret r"
    and tl: "kernel ?w1 = map Ret rs @- Err e ## k"
    by auto
  have step: "read_loop fd len w = read_loop fd (len + int r) ?w1"
    using Cons.prems(1) lt hd by (rule read_loop_Ret)
  from Cons.prems have "read_loop fd (len + int r) ?w1 =
    Some (e, ?w1\<lparr>kernel := k,
       trace := trace ?w1 @ read_events fd (len + int r) rs @
         [(Read fd (len + int r + int (sum_list rs))
             (nat (int sizeof_inotify_event - (len + int r + int (sum_list rs)))), Err e)],
       errno := e\<rparr>)"
    by (intro Cons.IH tl) auto
  with step show ?case
    by (simp add: add.assoc)
qed

lemma read_inotify_event_chunks:
  assumes "\<forall>r \<in> set rs. 0 < r" "sum_list rs = sizeof_inotify_event"
    "kernel w = map Ret rs @- k"
  shows "read_inotify_event fd w =
    Some (0, w\<lparr>kernel := k, trace := trace w @ read_events fd 0 rs\<rparr>)"
  unfolding read_inotify_event_def
  using assms by (intro read_loop_chunks) auto

lemma handle_inotify_event_chunks:
  assumes "\<forall>r \<in> set rs. 0 < r" "sum_list rs = sizeof_inotify_event"
    "kernel w = map Ret rs @- k"
  shows "handle_inotify_event fd pid w =
    (case sys (Kill pid SIGUSR1) (w\<lparr>kernel := k, trace := trace w @ read_events fd 0 rs\<rparr>) of
       (r, w2) \<Rightarrow> if r \<noteq> 0 then Some (errno w2, w2) else Some (0, w2))"
  by (simp add: handle_inotify_event_def read_inotify_event_chunks [OF assms])

lemma handle_inotify_event_delivered:
  assumes "\<forall>r \<in> set rs. 0 < r" "sum_list rs = sizeof_inotify_event"
    "kernel w = map Ret rs @- Ret 0 ## k"
  shows "handle_inotify_event fd pid w =
    Some (0, w\<lparr>kernel := k,
      trace := trace w @ read_events fd 0 rs @ [(Kill pid SIGUSR1, Ret 0)]\<rparr>)"
  by (simp add: handle_inotify_event_chunks [OF assms] sys_def)

section \<open>What a run that returns has done\<close>

text \<open>
  A run of the loop only ever appends to the trace, and a non-zero status comes from a
  failed call, the last one made.
\<close>

lemma read_loop_trace:
  "read_loop fd len w = Some r \<Longrightarrow>
   \<exists>ys. trace (snd r) = trace w @ ys \<and> (fst r \<noteq> 0 \<longrightarrow> ys \<noteq> [] \<and> failed (last ys))"
proof (induction rule: read_loop.raw_induct [rotated 1, consumes 1])
  case (1 f fd len w r)
  show ?case
  proof (cases "size_t_of len \<noteq> sizeof_inotify_event")
    case False
    with "1.hyps" [unfolded read_step_def] have "r = (0, w)"
      by simp
    then show ?thesis
      by simp
  next
    case True
    let ?c = "Read fd len (size_t_of (int sizeof_inotify_event - len))"
    obtain res w1 where call: "sys ?c w = (res, w1)"
      by (cases "sys ?c w")
    note tr = sys_trace [OF call]
    show ?thesis
    proof (cases "res < 0")
      case True
      with sys_negative [OF call] obtain e where "shd (kernel w) = Err e"
        by blast
      moreover from \<open>res < 0\<close> \<open>size_t_of len \<noteq> sizeof_inotify_event\<close> "1.hyps" [unfolded read_step_def] call
      have "r = (errno w1, w1)"
        by simp
      ultimately show ?thesis
        using tr by simp
    next
      case False
      with \<open>size_t_of len \<noteq> sizeof_inotify_event\<close> "1.hyps" [unfolded read_step_def] call
      have "f fd (len + res) w1 = Some r"
        by simp
      from "1.IH" [OF this] obtain ys where
        ys: "trace (snd r) = trace w1 @ ys" "fst r \<noteq> 0 \<longrightarrow> ys \<noteq> [] \<and> failed (last ys)"
        by blast
      from ys(1) tr have "trace (snd r) = trace w @ (?c, shd (kernel w)) # ys"
        by simp
      moreover from ys(2) have "fst r \<noteq> 0 \<longrightarrow> failed (last ((?c, shd (kernel w)) # ys))"
        by simp
      ultimately show ?thesis
        by blast
    qed
  qed
qed

lemma handle_inotify_event_trace:
  assumes "handle_inotify_event fd pid w = Some (st, w')"
  shows "\<exists>ys. trace w' = trace w @ ys \<and> (st \<noteq> 0 \<longrightarrow> ys \<noteq> [] \<and> failed (last ys))"
proof -
  from assms obtain s w1 where rd: "read_inotify_event fd w = Some (s, w1)"
    by (auto simp: handle_inotify_event_def split: option.splits)
  from read_loop_trace [OF rd [unfolded read_inotify_event_def]] obtain ys where
    ys: "trace w1 = trace w @ ys" "s \<noteq> 0 \<longrightarrow> ys \<noteq> [] \<and> failed (last ys)"
    by auto
  show ?thesis
  proof (cases "s \<noteq> 0")
    case True
    with assms rd have "st = s" "w' = w1"
      by (simp_all add: handle_inotify_event_def)
    with ys True show ?thesis
      by blast
  next
    case False
    obtain r w2 where kill: "sys (Kill pid SIGUSR1) w1 = (r, w2)"
      by (cases "sys (Kill pid SIGUSR1) w1")
    from False assms rd kill have res: "w' = w2" "st \<noteq> 0 \<longrightarrow> r \<noteq> 0"
      by (auto simp: handle_inotify_event_def split: if_splits)
    from kill have "r \<noteq> 0 \<longrightarrow> shd (kernel w1) \<noteq> Ret 0"
      by (auto simp: sys_def split: reply.splits)
    with res(2) have "st \<noteq> 0 \<longrightarrow> failed (Kill pid SIGUSR1, shd (kernel w1))"
      by simp
    moreover from sys_trace [OF kill] ys(1) res(1)
    have "trace w' = trace w @ (ys @ [(Kill pid SIGUSR1, shd (kernel w1))])"
      by simp
    ultimately show ?thesis
      by (intro exI [of _ "ys @ [(Kill pid SIGUSR1, shd (kernel w1))]"]) simp
  qed
qed

lemma monitor_file_trace:
  "monitor_file fd pid w = Some r \<Longrightarrow>
   \<exists>ys. trace (snd r) = trace w @ ys \<and> ys \<noteq> [] \<and> failed (last ys)"
proof (induction rule: monitor_file.raw_induct [rotated 1, consumes 1])
  case (1 f fd pid w r)
  let ?c = "Poll fd POLLIN (- 1)"
  obtain status w1 where poll: "sys ?c w = (status, w1)"
    by (cases "sys ?c w")
  note tr = sys_trace [OF poll]
  show ?case
  proof (cases "status < 0")
    case True
    with sys_negative [OF poll] obtain e where "shd (kernel w) = Err e"
      by blast
    moreover from True "1.hyps" poll have "r = (errno w1, w1)"
      by simp
    ultimately show ?thesis
      using tr by simp
  next
    case False
    with "1.hyps" poll obtain st w2 where
      h: "handle_inotify_event fd pid w1 = Some (st, w2)"
      by (auto split: option.splits)
    from handle_inotify_event_trace [OF h] obtain ys where
      ys: "trace w2 = trace w1 @ ys" "st \<noteq> 0 \<longrightarrow> ys \<noteq> [] \<and> failed (last ys)"
      by blast
    show ?thesis
    proof (cases "st \<noteq> 0")
      case True
      with False "1.hyps" poll h have "r = (st, w2)"
        by simp
      moreover from True ys tr have "trace w2 = trace w @ (?c, shd (kernel w)) # ys"
        "failed (last ((?c, shd (kernel w)) # ys))"
        by simp_all
      ultimately show ?thesis
        by (intro exI [of _ "(?c, shd (kernel w)) # ys"]) simp
    next
      case st: False
      with False "1.hyps" poll h have "f fd pid w2 = Some r"
        by simp
      from "1.IH" [OF this] obtain zs where
        zs: "trace (snd r) = trace w2 @ zs" "zs \<noteq> []" "failed (last zs)"
        by blast
      with ys(1) tr have "trace (snd r) = trace w @ ((?c, shd (kernel w)) # ys @ zs)"
        "failed (last ((?c, shd (kernel w)) # ys @ zs))"
        by simp_all
      then show ?thesis
        by (intro exI [of _ "(?c, shd (kernel w)) # ys @ zs"]) simp
    qed
  qed
qed

text \<open>
  Under the kernel's contract for \<^verbatim>\<open>read\<close>, the reads of a run that returns are those of
  \<open>read_events\<close>: either they complete the record, or the last one fails before that.
\<close>

lemma read_events_in_buffer:
  "0 \<le> len \<Longrightarrow> len + int (sum_list rs) \<le> int sizeof_inotify_event \<Longrightarrow>
   list_all in_buffer (read_events fd len rs)"
  by (induction rs arbitrary: len) (simp_all add: add.assoc)

lemma read_loop_run:
  assumes "read_loop fd len w = Some (st, w')" "trace w' = trace w @ ys"
    "list_all posix_read ys" "0 \<le> len" "len \<le> int sizeof_inotify_event"
  shows "\<exists>rs. (ys = read_events fd len rs
        \<and> len + int (sum_list rs) = int sizeof_inotify_event \<and> st = 0)
      \<or> (\<exists>e. ys = read_events fd len rs @
            [(Read fd (len + int (sum_list rs))
                (nat (int sizeof_inotify_event - (len + int (sum_list rs)))), Err e)]
          \<and> len + int (sum_list rs) < int sizeof_inotify_event \<and> st = e)"
  using assms
proof (induction ys arbitrary: len w)
  case Nil
  show ?case
  proof (cases "len = int sizeof_inotify_event")
    case True
    with Nil.prems(1) have "st = 0"
      by (simp add: read_loop_done)
    with True show ?thesis
      by (intro exI [of _ "[]"]) simp
  next
    case False
    with Nil.prems have lt: "len < int sizeof_inotify_event"
      by simp
    let ?c = "Read fd len (nat (int sizeof_inotify_event - len))"
    have "length (trace w') > length (trace w)"
    proof (cases "shd (kernel w)")
      case (Ret n)
      let ?w1 = "w\<lparr>kernel := stl (kernel w), trace := trace w @ [(?c, Ret n)]\<rparr>"
      from read_loop_Ret [OF Nil.prems(4) lt Ret, of fd] Nil.prems(1)
      have "read_loop fd (len + int n) ?w1 = Some (st, w')"
        by simp
      from read_loop_trace [OF this] show ?thesis
        by auto
    next
      case (Err e)
      from read_loop_Err [OF Nil.prems(4) lt Err, of fd] Nil.prems(1) show ?thesis
        by auto
    qed
    with Nil.prems(2) show ?thesis
      by simp
  qed
next
  case (Cons y ys)
  have lt: "len < int sizeof_inotify_event"
  proof (rule ccontr)
    assume "\<not> len < int sizeof_inotify_event"
    with Cons.prems have "len = int sizeof_inotify_event"
      by simp
    with Cons.prems(1) have "w' = w"
      by (simp add: read_loop_done)
    with Cons.prems(2) show False
      by simp
  qed
  let ?c = "Read fd len (nat (int sizeof_inotify_event - len))"
  show ?case
  proof (cases "shd (kernel w)")
    case (Ret n)
    let ?w1 = "w\<lparr>kernel := stl (kernel w), trace := trace w @ [(?c, Ret n)]\<rparr>"
    from read_loop_Ret [OF Cons.prems(4) lt Ret, of fd] Cons.prems(1)
    have run: "read_loop fd (len + int n) ?w1 = Some (st, w')"
      by simp
    from read_loop_trace [OF this] obtain zs where "trace w' = trace ?w1 @ zs"
      by auto
    with Cons.prems(2) have y: "y = (?c, Ret n)" and tr: "trace w' = trace ?w1 @ ys"
      by simp_all
    from Cons.prems(3) y have "n \<le> nat (int sizeof_inotify_event - len)"
      by simp
    with lt have le: "len + int n \<le> int sizeof_inotify_event"
      by arith
    from Cons.prems(3) have "list_all posix_read ys"
      by simp
    from Cons.IH [OF run tr this _ le] Cons.prems(4) obtain rs where
      rs: "(ys = read_events fd (len + int n) rs
        \<and> len + int n + int (sum_list rs) = int sizeof_inotify_event \<and> st = 0)
      \<or> (\<exists>e. ys = read_events fd (len + int n) rs @
            [(Read fd (len + int n + int (sum_list rs))
                (nat (int sizeof_inotify_event - (len + int n + int (sum_list rs)))), Err e)]
          \<and> len + int n + int (sum_list rs) < int sizeof_inotify_event \<and> st = e)"
      by auto
    then show ?thesis
      using y by (intro exI [of _ "n # rs"]) (simp add: add.assoc)
  next
    case (Err e)
    from read_loop_Err [OF Cons.prems(4) lt Err, of fd] Cons.prems(1,2)
    have "st = e" "y = (?c, Err e)" "ys = []"
      by simp_all
    with lt show ?thesis
      by (intro exI [of _ "[]"]) simp
  qed
qed

lemma posix_reply_read:
  "list_all posix_reply ys \<Longrightarrow> list_all posix_read ys"
proof (induction ys)
  case (Cons y ys)
  obtain c r where "y = (c, r)"
    by (cases y)
  with Cons show ?case
    by (cases r) simp_all
qed simp

lemma handle_inotify_event_run:
  assumes "handle_inotify_event fd pid w = Some (st, w')"
    "list_all posix_reply (drop (length (trace w)) (trace w'))"
  shows "(\<exists>rs r. sum_list rs = sizeof_inotify_event
        \<and> drop (length (trace w)) (trace w') = read_events fd 0 rs @ [(Kill pid SIGUSR1, r)])
    \<or> (\<exists>rs e. sum_list rs < sizeof_inotify_event \<and> st = e \<and> e \<noteq> 0
        \<and> drop (length (trace w)) (trace w') =
            read_events fd 0 rs @
              [(Read fd (int (sum_list rs)) (sizeof_inotify_event - sum_list rs), Err e)])"
proof -
  let ?new = "drop (length (trace w)) (trace w')"
  from assms(1) obtain s w1 where rd: "read_loop fd 0 w = Some (s, w1)"
    by (auto simp: handle_inotify_event_def read_inotify_event_def split: option.splits)
  from read_loop_trace [OF rd] obtain ys where ys: "trace w1 = trace w @ ys"
    by auto
  have fit: "nat (int sizeof_inotify_event - int (sum_list rs)) = sizeof_inotify_event - sum_list rs"
    for rs
    by simp
  show ?thesis
  proof (cases "s \<noteq> 0")
    case True
    with assms(1) rd have res: "st = s" "w' = w1"
      by (simp_all add: handle_inotify_event_def read_inotify_event_def)
    with ys have new: "?new = ys"
      by simp
    with assms(2) have "list_all posix_read ys"
      by (simp add: posix_reply_read)
    from read_loop_run [OF rd ys this] True obtain rs where
      "ys = read_events fd 0 rs @
            [(Read fd (0 + int (sum_list rs))
                (nat (int sizeof_inotify_event - (0 + int (sum_list rs)))), Err s)]"
      "0 + int (sum_list rs) < int sizeof_inotify_event"
      by auto
    with True res new fit show ?thesis
      by auto
  next
    case False
    obtain r w2 where kill: "sys (Kill pid SIGUSR1) w1 = (r, w2)"
      by (cases "sys (Kill pid SIGUSR1) w1")
    from False assms(1) rd kill have "w' = w2"
      by (auto simp: handle_inotify_event_def read_inotify_event_def split: if_splits)
    with sys_trace [OF kill] ys
    have new: "?new = ys @ [(Kill pid SIGUSR1, shd (kernel w1))]"
      by simp
    with assms(2) have px: "list_all posix_reply ys"
      by simp
    then have "list_all posix_read ys"
      by (rule posix_reply_read)
    from read_loop_run [OF rd ys this] False obtain rs where
      rs: "(ys = read_events fd 0 rs \<and> 0 + int (sum_list rs) = int sizeof_inotify_event)
        \<or> ys = read_events fd 0 rs @
            [(Read fd (0 + int (sum_list rs))
                (nat (int sizeof_inotify_event - (0 + int (sum_list rs)))), Err 0)]"
      by auto
    from px have "ys \<noteq> read_events fd 0 rs @
            [(Read fd (0 + int (sum_list rs))
                (nat (int sizeof_inotify_event - (0 + int (sum_list rs)))), Err 0)]"
      by auto
    with rs have "ys = read_events fd 0 rs" "sum_list rs = sizeof_inotify_event"
      by auto
    with new show ?thesis
      by auto
  qed
qed

section \<open>The event loop, event by event\<close>

lemma monitor_file_Err:
  assumes "kernel w = Err e ## k"
  shows "monitor_file fd pid w =
    Some (e, w\<lparr>kernel := k, trace := trace w @ [(Poll fd POLLIN (- 1), Err e)], errno := e\<rparr>)"
  by (subst monitor_file.simps) (simp add: sys_def assms)

lemma monitor_file_event:
  assumes "\<forall>r \<in> set rs. 0 < r" "sum_list rs = sizeof_inotify_event"
    "kernel w = event_replies (p, rs) @- k"
  shows "monitor_file fd pid w =
    monitor_file fd pid (w\<lparr>kernel := k, trace := trace w @ event_trace fd pid (p, rs)\<rparr>)"
proof -
  let ?w1 = "w\<lparr>kernel := map Ret rs @- Ret 0 ## k,
    trace := trace w @ [(Poll fd POLLIN (- 1), Ret p)]\<rparr>"
  from assms(3) have poll: "sys (Poll fd POLLIN (- 1)) w = (int p, ?w1)"
    by (simp add: sys_def)
  have "kernel ?w1 = map Ret rs @- Ret 0 ## k"
    by simp
  from handle_inotify_event_delivered [OF assms(1,2) this]
  have "handle_inotify_event fd pid ?w1 =
    Some (0, w\<lparr>kernel := k, trace := trace w @ event_trace fd pid (p, rs)\<rparr>)"
    by simp
  with poll show ?thesis
    by (subst monitor_file.simps) simp
qed

lemma monitor_file_events:
  assumes "list_all complete_event evs"
    "kernel w = concat (map event_replies evs) @- k"
  shows "monitor_file fd pid w =
    monitor_file fd pid
      (w\<lparr>kernel := k, trace := trace w @ concat (map (event_trace fd pid) evs)\<rparr>)"
  using assms
proof (induction evs arbitrary: w)
  case Nil
  then have "w\<lparr>kernel := k, trace := trace w @ concat (map (event_trace fd pid) [])\<rparr> = w"
    by simp
  then show ?case by simp
next
  case (Cons ev evs)
  obtain p rs where ev: "ev = (p, rs)"
    by (cases ev)
  let ?k1 = "concat (map event_replies evs) @- k"
  let ?w1 = "w\<lparr>kernel := ?k1, trace := trace w @ event_trace fd pid (p, rs)\<rparr>"
  from Cons.prems ev have wf: "\<forall>r \<in> set rs. 0 < r" "sum_list rs = sizeof_inotify_event"
    and k: "kernel w = event_replies (p, rs) @- ?k1"
    by (simp_all add: list_all_iff shift_append del: event_replies.simps)
  have "monitor_file fd pid w = monitor_file fd pid ?w1"
    using wf k by (rule monitor_file_event)
  also from Cons.prems have "\<dots> = monitor_file fd pid
      (?w1\<lparr>kernel := k, trace := trace ?w1 @ concat (map (event_trace fd pid) evs)\<rparr>)"
    by (intro Cons.IH) simp_all
  finally show ?case
    by (simp add: ev)
qed

lemma kills_of_event_trace:
  "length (filter is_kill (read_events fd len rs)) = 0"
  by (induction rs arbitrary: len) simp_all

lemma kills_of_events:
  "length (filter is_kill (concat (map (event_trace fd pid) evs))) = length evs"
  by (induction evs) (auto simp: kills_of_event_trace)

lemma monitor_file_never_returns:
  "monitor_file fd pid w = Some r \<Longrightarrow>
   \<forall>evs. kernel w = flat (smap event_replies evs) \<longrightarrow> \<not> pred_stream complete_event evs"
proof (induction rule: monitor_file.raw_induct [rotated 1, consumes 1])
  case (1 f fd pid w r)
  show ?case
  proof (intro allI impI notI)
    fix evs
    assume k: "kernel w = flat (smap event_replies evs)"
      and ok: "pred_stream complete_event evs"
    obtain ev evs' where evs: "evs = ev ## evs'"
      by (cases evs)
    obtain p rs where ev: "ev = (p, rs)"
      by (cases ev)
    have "flat (smap event_replies evs) =
      event_replies (p, rs) @- flat (smap event_replies (stl evs))"
      by (subst flat_unfold) (simp_all add: ev evs)
    with k have k': "kernel w = Ret p ## map Ret rs @- Ret 0 ## flat (smap event_replies (stl evs))"
      by simp
    from ok have "complete_event ev" and ok': "pred_stream complete_event (stl evs)"
      by (simp_all add: evs)
    then have wf: "\<forall>r \<in> set rs. 0 < r" "sum_list rs = sizeof_inotify_event"
      by (simp_all add: ev list_all_iff)
    let ?w1 = "w\<lparr>kernel := map Ret rs @- Ret 0 ## flat (smap event_replies (stl evs)),
      trace := trace w @ [(Poll fd POLLIN (- 1), Ret p)]\<rparr>"
    let ?w2 = "w\<lparr>kernel := flat (smap event_replies (stl evs)),
      trace := trace w @ event_trace fd pid (p, rs)\<rparr>"
    from k' have poll: "sys (Poll fd POLLIN (- 1)) w = (int p, ?w1)"
      by (simp add: sys_def)
    have "kernel ?w1 = map Ret rs @- Ret 0 ## flat (smap event_replies (stl evs))"
      by simp
    from handle_inotify_event_delivered [OF wf this]
    have "handle_inotify_event fd pid ?w1 = Some (0, ?w2)"
      by simp
    with "1.hyps" poll have "f fd pid ?w2 = Some r"
      by simp
    from "1.IH" [OF this] ok' show False
      by simp
  qed
qed

section \<open>End of stream in the middle of a record\<close>

lemma read_loop_returns_only_on_progress:
  "read_loop fd len w = Some r \<Longrightarrow>
   size_t_of len \<noteq> sizeof_inotify_event \<longrightarrow> (\<exists>x \<in> sset (kernel w). x \<noteq> Ret 0)"
proof (induction rule: read_loop.raw_induct [rotated 1, consumes 1])
  case (1 f fd len w r)
  show ?case
  proof
    assume open_record: "size_t_of len \<noteq> sizeof_inotify_event"
    show "\<exists>x \<in> sset (kernel w). x \<noteq> Ret 0"
    proof (cases "shd (kernel w) = Ret 0")
      case False
      have "shd (kernel w) \<in> sset (kernel w)"
        by (rule shd_sset)
      with False show ?thesis
        by (rule_tac x = "shd (kernel w)" in bexI)
    next
      case True
      let ?w' = "w\<lparr>kernel := stl (kernel w),
        trace := trace w @ [(Read fd len (size_t_of (int sizeof_inotify_event - len)), Ret 0)]\<rparr>"
      from True have "sys (Read fd len (size_t_of (int sizeof_inotify_event - len))) w = (0, ?w')"
        by (simp add: sys_Ret)
      with "1.hyps" [unfolded read_step_def] open_record have "f fd len ?w' = Some r"
        by simp
      from "1.IH" [OF this] open_record
      obtain x where x: "x \<in> sset (stl (kernel w))" "x \<noteq> Ret 0"
        by auto
      from x(1) have "x \<in> sset (kernel w)"
        by (rule stl_sset)
      with x(2) show ?thesis
        by (rule_tac x = x in bexI)
    qed
  qed
qed

text \<open>
  C3: the spec says that a channel closing in the middle of a record ends the reader with a
  read error. In the code only a negative result of \<^verbatim>\<open>read\<close> leaves the loop early: once
  seven bytes have arrived and every further read returns zero bytes, the reader never
  returns.
\<close>

theorem read_inotify_event_spins_at_end_of_stream:
  "read_inotify_event 3 closed_channel_world = None"
proof (rule ccontr)
  assume "read_inotify_event 3 closed_channel_world \<noteq> None"
  then obtain r where r: "read_inotify_event 3 closed_channel_world = Some r"
    by blast
  define w' where "w' = \<lparr>kernel = sconst (Ret 0),
    trace = [(Read 3 0 16, Ret 7)], errno = 0\<rparr>"
  have "read_inotify_event 3 closed_channel_world = read_loop 3 7 w'"
    unfolding read_inotify_event_def
    by (subst read_loop.simps)
       (simp add: read_step_def closed_channel_world_def world_of_def sys_def w'_def size_t_of_def
          sizeof_inotify_event_def)
  with r have "read_loop 3 7 w' = Some r"
    by simp
  from read_loop_returns_only_on_progress [OF this]
  have "\<exists>x \<in> sset (kernel w'). x \<noteq> Ret 0"
    by (simp add: size_t_of_def sizeof_inotify_event_def)
  then show False
    by (simp add: w'_def)
qed

section \<open>The record reader\<close>

text \<open>
  C1: when the channel delivers the record in short reads of one or more bytes each, the
  reader reads again and again, each time at the offset reached and for what is still
  missing, and returns success after the read that completes the record; the signal is
  sent after that read. More generally, in every run of \<^verbatim>\<open>handle_inotify_event\<close> that returns,
  with a kernel that keeps the contract of its calls, either the reads completed the record
  and the signal is the last call, or a read failed before the record was complete and no
  signal was sent.
\<close>

theorem record_assembled_before_signal:
  "((\<forall>r \<in> set rs. 0 < r) \<and> sum_list rs = sizeof_inotify_event
      \<and> kernel w = map Ret rs @- k \<longrightarrow>
      read_inotify_event fd w =
        Some (0, w\<lparr>kernel := k, trace := trace w @ read_events fd 0 rs\<rparr>)
      \<and> (\<exists>st w'. handle_inotify_event fd pid w = Some (st, w')
            \<and> trace w' = trace w @ read_events fd 0 rs @ [(Kill pid SIGUSR1, shd k)]))
   \<and> (handle_inotify_event fd pid w = Some (st, w')
        \<and> list_all posix_reply (drop (length (trace w)) (trace w')) \<longrightarrow>
      (\<exists>rs r. sum_list rs = sizeof_inotify_event
          \<and> drop (length (trace w)) (trace w') = read_events fd 0 rs @ [(Kill pid SIGUSR1, r)])
      \<or> (\<exists>rs e. sum_list rs < sizeof_inotify_event \<and> st = e \<and> e \<noteq> 0
          \<and> drop (length (trace w)) (trace w') =
              read_events fd 0 rs @
                [(Read fd (int (sum_list rs)) (sizeof_inotify_event - sum_list rs), Err e)]))"
proof (intro conjI impI)
  assume a: "(\<forall>r \<in> set rs. 0 < r) \<and> sum_list rs = sizeof_inotify_event
      \<and> kernel w = map Ret rs @- k"
  then have chunks: "\<forall>r \<in> set rs. 0 < r" "sum_list rs = sizeof_inotify_event"
    "kernel w = map Ret rs @- k"
    by simp_all
  show "read_inotify_event fd w =
      Some (0, w\<lparr>kernel := k, trace := trace w @ read_events fd 0 rs\<rparr>)"
    using chunks by (rule read_inotify_event_chunks)
  let ?w1 = "w\<lparr>kernel := k, trace := trace w @ read_events fd 0 rs\<rparr>"
  obtain r w2 where kill: "sys (Kill pid SIGUSR1) ?w1 = (r, w2)"
    by (cases "sys (Kill pid SIGUSR1) ?w1")
  from sys_trace [OF kill]
  have "trace w2 = trace w @ read_events fd 0 rs @ [(Kill pid SIGUSR1, shd k)]"
    by simp
  moreover have "handle_inotify_event fd pid w = Some (if r \<noteq> 0 then errno w2 else 0, w2)"
    by (simp add: handle_inotify_event_chunks [OF chunks] kill)
  ultimately show "\<exists>st w'. handle_inotify_event fd pid w = Some (st, w')
          \<and> trace w' = trace w @ read_events fd 0 rs @ [(Kill pid SIGUSR1, shd k)]"
    by blast
next
  assume "handle_inotify_event fd pid w = Some (st, w')
        \<and> list_all posix_reply (drop (length (trace w)) (trace w'))"
  then show "(\<exists>rs r. sum_list rs = sizeof_inotify_event
          \<and> drop (length (trace w)) (trace w') = read_events fd 0 rs @ [(Kill pid SIGUSR1, r)])
      \<or> (\<exists>rs e. sum_list rs < sizeof_inotify_event \<and> st = e \<and> e \<noteq> 0
          \<and> drop (length (trace w)) (trace w') =
              read_events fd 0 rs @
                [(Read fd (int (sum_list rs)) (sizeof_inotify_event - sum_list rs), Err e)])"
    by (intro handle_inotify_event_run) simp_all
qed

theorem record_assembled_before_signal_witness:
  "read_inotify_event 3 split_record_world =
     Some (0, \<lparr>kernel = Ret 0 ## sconst (Err EINTR),
       trace = [(Read 3 0 16, Ret 3), (Read 3 3 13, Ret 5), (Read 3 8 8, Ret 8)],
       errno = 0\<rparr>)
   \<and> (\<exists>st w'. handle_inotify_event 3 4242 split_record_world = Some (st, w')
        \<and> trace w' = [(Read 3 0 16, Ret 3), (Read 3 3 13, Ret 5), (Read 3 8 8, Ret 8),
                       (Kill 4242 SIGUSR1, Ret 0)])
   \<and> (\<exists>rs r. sum_list rs = sizeof_inotify_event
        \<and> [(Read 3 0 16, Ret 3), (Read 3 3 13, Ret 5), (Read 3 8 8, Ret 8),
            (Kill 4242 SIGUSR1, Ret 0)] = read_events 3 0 rs @ [(Kill 4242 SIGUSR1, r)])"
proof -
  let ?w' = "\<lparr>kernel = sconst (Err EINTR),
       trace = [(Read 3 0 16, Ret 3), (Read 3 3 13, Ret 5), (Read 3 8 8, Ret 8),
                (Kill 4242 SIGUSR1, Ret 0)],
       errno = 0\<rparr>"
  have run: "handle_inotify_event 3 4242 split_record_world = Some (0, ?w')"
    by (simp add: handle_inotify_event_def read_inotify_event_def read_loop.simps read_step_def
        split_record_world_def world_of_def sys_def size_t_of_def sizeof_inotify_event_def)
  from record_assembled_before_signal
    [where rs = "[3, 5, 8]" and w = split_record_world and k = "Ret 0 ## sconst (Err EINTR)"
       and fd = 3 and pid = 4242]
  have "read_inotify_event 3 split_record_world =
     Some (0, \<lparr>kernel = Ret 0 ## sconst (Err EINTR),
       trace = [(Read 3 0 16, Ret 3), (Read 3 3 13, Ret 5), (Read 3 8 8, Ret 8)],
       errno = 0\<rparr>)
   \<and> (\<exists>st w'. handle_inotify_event 3 4242 split_record_world = Some (st, w')
        \<and> trace w' = [(Read 3 0 16, Ret 3), (Read 3 3 13, Ret 5), (Read 3 8 8, Ret 8),
                       (Kill 4242 SIGUSR1, Ret 0)])"
    by (simp add: split_record_world_def world_of_def sizeof_inotify_event_def)
  moreover from run record_assembled_before_signal
    [where w = split_record_world and fd = 3 and pid = 4242 and st = 0 and w' = ?w']
  have "\<exists>rs r. sum_list rs = sizeof_inotify_event
        \<and> [(Read 3 0 16, Ret 3), (Read 3 3 13, Ret 5), (Read 3 8 8, Ret 8),
            (Kill 4242 SIGUSR1, Ret 0)] = read_events 3 0 rs @ [(Kill 4242 SIGUSR1, r)]"
    by (simp add: split_record_world_def world_of_def)
  ultimately show ?thesis
    by blast
qed

subsection \<open>The reader, pass by pass\<close>

lemma read_step_done:
  "len = int sizeof_inotify_event \<Longrightarrow> read_step fd len w = Returned 0 w"
  by (simp add: read_step_def size_t_of_def sizeof_inotify_event_def)

lemma read_step_Ret:
  assumes "0 \<le> len" "len < int sizeof_inotify_event" "shd (kernel w) = Ret n"
  shows "read_step fd len w =
    Running (len + int n)
      (w\<lparr>kernel := stl (kernel w),
         trace := trace w @ [(Read fd len (nat (int sizeof_inotify_event - len)), Ret n)]\<rparr>)"
proof -
  from assms(1,2) have "size_t_of len \<noteq> sizeof_inotify_event"
    "size_t_of (int sizeof_inotify_event - len) = nat (int sizeof_inotify_event - len)"
    by (simp_all add: size_t_of_def sizeof_inotify_event_def)
  then show ?thesis
    by (simp add: read_step_def sys_Ret [OF assms(3)])
qed

lemma read_step_Err:
  assumes "0 \<le> len" "len < int sizeof_inotify_event" "shd (kernel w) = Err e"
  shows "read_step fd len w =
    Returned e
      (w\<lparr>kernel := stl (kernel w),
         trace := trace w @ [(Read fd len (nat (int sizeof_inotify_event - len)), Err e)],
         errno := e\<rparr>)"
proof -
  from assms(1,2) have "size_t_of len \<noteq> sizeof_inotify_event"
    "size_t_of (int sizeof_inotify_event - len) = nat (int sizeof_inotify_event - len)"
    by (simp_all add: size_t_of_def sizeof_inotify_event_def)
  then show ?thesis
    by (simp add: read_step_def sys_Err [OF assms(3)])
qed

lemma read_step_trace:
  "\<exists>zs. trace (world_after (read_step fd len w)) = trace w @ zs"
proof (cases "size_t_of len \<noteq> sizeof_inotify_event")
  case True
  let ?c = "Read fd len (size_t_of (int sizeof_inotify_event - len))"
  obtain res w1 where call: "sys ?c w = (res, w1)"
    by (cases "sys ?c w")
  with True sys_trace [OF call] show ?thesis
    by (simp add: read_step_def)
next
  case False
  then show ?thesis
    by (simp add: read_step_def)
qed

lemma read_run_trace:
  "\<exists>zs. trace (world_after (read_run n fd len w)) = trace w @ zs"
proof (induction n arbitrary: len w)
  case 0
  show ?case by simp
next
  case (Suc n)
  from read_step_trace [of fd len w] obtain zs where
    zs: "trace (world_after (read_step fd len w)) = trace w @ zs"
    by blast
  show ?case
  proof (cases "read_step fd len w")
    case (Returned status w1)
    with zs show ?thesis
      by simp
  next
    case (Running len1 w1)
    from Suc.IH [of len1 w1] obtain zs1 where
      "trace (world_after (read_run n fd len1 w1)) = trace w1 @ zs1"
      by blast
    with Running zs show ?thesis
      by simp
  qed
qed

text \<open>The loop returns what some number of passes returns.\<close>

lemma read_run_returned:
  "read_run n fd len w = Returned status w' \<Longrightarrow> read_loop fd len w = Some (status, w')"
proof (induction n arbitrary: len w)
  case 0
  then show ?case by simp
next
  case (Suc n)
  show ?case
  proof (cases "read_step fd len w")
    case (Returned status1 w1)
    with Suc.prems show ?thesis
      by (subst read_loop.simps) simp
  next
    case (Running len1 w1)
    with Suc.prems have "read_run n fd len1 w1 = Returned status w'"
      by simp
    from Suc.IH [OF this] Running show ?thesis
      by (subst read_loop.simps) simp
  qed
qed

lemma read_loop_returned:
  "read_loop fd len w = Some r \<Longrightarrow> \<exists>n. read_run n fd len w = Returned (fst r) (snd r)"
proof (induction rule: read_loop.raw_induct [rotated 1, consumes 1])
  case (1 f fd len w r)
  show ?case
  proof (cases "read_step fd len w")
    case (Returned status1 w1)
    with "1.hyps" have "read_run (Suc 0) fd len w = Returned (fst r) (snd r)"
      by auto
    then show ?thesis ..
  next
    case (Running len1 w1)
    with "1.hyps" have "f fd len1 w1 = Some r"
      by simp
    from "1.IH" [OF this] obtain n where "read_run n fd len1 w1 = Returned (fst r) (snd r)"
      by blast
    with Running have "read_run (Suc n) fd len w = Returned (fst r) (snd r)"
      by simp
    then show ?thesis ..
  qed
qed

text \<open>
  The invariant of the loop, from any state inside the record: as long as the replies to the
  calls made keep the kernel's contract, the bytes accumulated are those returned so far
  and do not exceed the record, and the calls made are the reads of \<open>read_events\<close>.
\<close>

lemma read_run_invariant:
  assumes "0 \<le> len" "len \<le> int sizeof_inotify_event"
    "trace (world_after (read_run n fd len w)) = trace w @ ys"
    "list_all posix_reply ys"
  shows "\<exists>rs. len + int (sum_list rs) \<le> int sizeof_inotify_event
    \<and> (case read_run n fd len w of
          Running len' w' \<Rightarrow> len' = len + int (sum_list rs) \<and> ys = read_events fd len rs
        | Returned status w' \<Rightarrow>
            (status = 0 \<and> len + int (sum_list rs) = int sizeof_inotify_event
              \<and> ys = read_events fd len rs)
            \<or> (0 < status \<and> len + int (sum_list rs) < int sizeof_inotify_event
              \<and> ys = read_events fd len rs @
                  [(Read fd (len + int (sum_list rs))
                      (nat (int sizeof_inotify_event - (len + int (sum_list rs)))),
                    Err status)]))"
  using assms
proof (induction n arbitrary: len w ys)
  case 0
  then show ?case
    by (intro exI [of _ "[]"]) simp
next
  case (Suc n)
  show ?case
  proof (cases "len = int sizeof_inotify_event")
    case True
    with Suc.prems(3) show ?thesis
      by (intro exI [of _ "[]"]) (simp add: read_step_done)
  next
    case False
    with Suc.prems(2) have lt: "len < int sizeof_inotify_event"
      by simp
    let ?c = "Read fd len (nat (int sizeof_inotify_event - len))"
    show ?thesis
    proof (cases "shd (kernel w)")
      case (Err e)
      note step = read_step_Err [OF Suc.prems(1) lt Err, of fd]
      with Suc.prems(3) have ys: "ys = [(?c, Err e)]"
        by simp
      with Suc.prems(4) have "0 < e"
        by simp
      with step ys lt show ?thesis
        by (intro exI [of _ "[]"]) simp
    next
      case (Ret r)
      let ?w1 = "w\<lparr>kernel := stl (kernel w), trace := trace w @ [(?c, Ret r)]\<rparr>"
      note step = read_step_Ret [OF Suc.prems(1) lt Ret, of fd]
      then have run: "read_run (Suc n) fd len w = read_run n fd (len + int r) ?w1"
        by simp
      from read_run_trace [of n fd "len + int r" ?w1] obtain zs where
        zs: "trace (world_after (read_run n fd (len + int r) ?w1)) = trace ?w1 @ zs"
        by blast
      with run Suc.prems(3) have ys: "ys = (?c, Ret r) # zs"
        by simp
      with Suc.prems(4) have "r \<le> nat (int sizeof_inotify_event - len)" and px: "list_all posix_reply zs"
        by simp_all
      with lt have le: "len + int r \<le> int sizeof_inotify_event"
        by arith
      from Suc.prems(1) have ge: "0 \<le> len + int r"
        by simp
      from Suc.IH [OF ge le zs px] obtain rs where
        rs: "len + int r + int (sum_list rs) \<le> int sizeof_inotify_event"
        "case read_run n fd (len + int r) ?w1 of
          Running len' w' \<Rightarrow>
            len' = len + int r + int (sum_list rs) \<and> zs = read_events fd (len + int r) rs
        | Returned status w' \<Rightarrow>
            (status = 0 \<and> len + int r + int (sum_list rs) = int sizeof_inotify_event
              \<and> zs = read_events fd (len + int r) rs)
            \<or> (0 < status \<and> len + int r + int (sum_list rs) < int sizeof_inotify_event
              \<and> zs = read_events fd (len + int r) rs @
                  [(Read fd (len + int r + int (sum_list rs))
                      (nat (int sizeof_inotify_event - (len + int r + int (sum_list rs)))),
                    Err status)])"
        by blast
      show ?thesis
      proof (intro exI [of _ "r # rs"] conjI)
        from rs(1) show "len + int (sum_list (r # rs)) \<le> int sizeof_inotify_event"
          by (simp add: add.assoc)
        from rs(2) show "case read_run (Suc n) fd len w of
          Running len' w' \<Rightarrow>
            len' = len + int (sum_list (r # rs)) \<and> ys = read_events fd len (r # rs)
        | Returned status w' \<Rightarrow>
            (status = 0 \<and> len + int (sum_list (r # rs)) = int sizeof_inotify_event
              \<and> ys = read_events fd len (r # rs))
            \<or> (0 < status \<and> len + int (sum_list (r # rs)) < int sizeof_inotify_event
              \<and> ys = read_events fd len (r # rs) @
                  [(Read fd (len + int (sum_list (r # rs)))
                      (nat (int sizeof_inotify_event - (len + int (sum_list (r # rs))))),
                    Err status)])"
          unfolding run ys
          by (cases "read_run n fd (len + int r) ?w1") (simp_all add: add.assoc)
      qed
    qed
  qed
qed

lemma read_events_failed_in_buffer:
  assumes "len + int (sum_list rs) < int sizeof_inotify_event" "0 \<le> len"
  shows "list_all in_buffer
    (read_events fd len rs @
      [(Read fd (len + int (sum_list rs))
          (nat (int sizeof_inotify_event - (len + int (sum_list rs)))), Err e)])"
  using assms by (simp add: read_events_in_buffer)

text \<open>
  C10: take the reader after any number of passes through its loop, returned or not. If the
  replies to the calls it has made keep the kernel's contract (a read returns no more than
  the bytes asked for, a failing call sets a positive \<^verbatim>\<open>errno\<close>), then the bytes accumulated
  are the bytes returned so far and are at most \<^verbatim>\<open>sizeof(struct inotify_event)\<close>; every call
  made is a read at the offset reached for exactly the missing bytes, so its destination
  lies inside the record; and if the reader has returned, it returned \<open>0\<close> with exactly
  \<^verbatim>\<open>sizeof(struct inotify_event)\<close> bytes read, or a positive \<^verbatim>\<open>errno\<close> after a failed read with
  fewer. What \<^verbatim>\<open>read_inotify_event\<close> returns is what some number of passes returns.
\<close>

theorem reader_stays_within_record:
  "(read_inotify_event fd w = Some (st, w') \<longleftrightarrow> (\<exists>m. read_run m fd 0 w = Returned st w'))
   \<and> (list_all posix_reply
          (drop (length (trace w)) (trace (world_after (read_run n fd 0 w)))) \<longrightarrow>
      (\<exists>rs. sum_list rs \<le> sizeof_inotify_event
        \<and> list_all in_buffer
            (drop (length (trace w)) (trace (world_after (read_run n fd 0 w))))
        \<and> (case read_run n fd 0 w of
              Running len w1 \<Rightarrow>
                len = int (sum_list rs)
                \<and> drop (length (trace w)) (trace w1) = read_events fd 0 rs
            | Returned status w1 \<Rightarrow>
                (status = 0 \<and> sum_list rs = sizeof_inotify_event
                  \<and> drop (length (trace w)) (trace w1) = read_events fd 0 rs)
                \<or> (0 < status \<and> sum_list rs < sizeof_inotify_event
                  \<and> drop (length (trace w)) (trace w1) =
                      read_events fd 0 rs @
                        [(Read fd (int (sum_list rs)) (sizeof_inotify_event - sum_list rs),
                          Err status)]))))"
proof (intro conjI impI)
  show "read_inotify_event fd w = Some (st, w') \<longleftrightarrow> (\<exists>m. read_run m fd 0 w = Returned st w')"
  proof
    assume "read_inotify_event fd w = Some (st, w')"
    then have "read_loop fd 0 w = Some (st, w')"
      by (simp add: read_inotify_event_def)
    from read_loop_returned [OF this] show "\<exists>m. read_run m fd 0 w = Returned st w'"
      by simp
  next
    assume "\<exists>m. read_run m fd 0 w = Returned st w'"
    then obtain m where "read_run m fd 0 w = Returned st w'" ..
    then show "read_inotify_event fd w = Some (st, w')"
      unfolding read_inotify_event_def by (rule read_run_returned)
  qed
next
  let ?new = "drop (length (trace w)) (trace (world_after (read_run n fd 0 w)))"
  assume px: "list_all posix_reply ?new"
  from read_run_trace [of n fd 0 w] have tr: "trace (world_after (read_run n fd 0 w)) = trace w @ ?new"
    by auto
  have fit: "nat (int sizeof_inotify_event - int (sum_list rs)) = sizeof_inotify_event - sum_list rs"
    for rs
    by simp
  from read_run_invariant [OF _ _ tr px] obtain rs where
    rs: "0 + int (sum_list rs) \<le> int sizeof_inotify_event"
    "case read_run n fd 0 w of
          Running len' w' \<Rightarrow> len' = 0 + int (sum_list rs) \<and> ?new = read_events fd 0 rs
        | Returned status w' \<Rightarrow>
            (status = 0 \<and> 0 + int (sum_list rs) = int sizeof_inotify_event
              \<and> ?new = read_events fd 0 rs)
            \<or> (0 < status \<and> 0 + int (sum_list rs) < int sizeof_inotify_event
              \<and> ?new = read_events fd 0 rs @
                  [(Read fd (0 + int (sum_list rs))
                      (nat (int sizeof_inotify_event - (0 + int (sum_list rs)))),
                    Err status)])"
    by auto
  from rs have buf: "list_all in_buffer ?new"
    by (cases "read_run n fd 0 w")
       (auto simp: read_events_in_buffer dest: read_events_failed_in_buffer [of 0 _ fd])
  show "\<exists>rs. sum_list rs \<le> sizeof_inotify_event
        \<and> list_all in_buffer ?new
        \<and> (case read_run n fd 0 w of
              Running len w1 \<Rightarrow>
                len = int (sum_list rs)
                \<and> drop (length (trace w)) (trace w1) = read_events fd 0 rs
            | Returned status w1 \<Rightarrow>
                (status = 0 \<and> sum_list rs = sizeof_inotify_event
                  \<and> drop (length (trace w)) (trace w1) = read_events fd 0 rs)
                \<or> (0 < status \<and> sum_list rs < sizeof_inotify_event
                  \<and> drop (length (trace w)) (trace w1) =
                      read_events fd 0 rs @
                        [(Read fd (int (sum_list rs)) (sizeof_inotify_event - sum_list rs),
                          Err status)]))"
  proof (intro exI [of _ rs] conjI)
    from rs(1) show "sum_list rs \<le> sizeof_inotify_event"
      by simp
    show "list_all in_buffer ?new"
      by (rule buf)
    from rs(2) show "case read_run n fd 0 w of
              Running len w1 \<Rightarrow>
                len = int (sum_list rs)
                \<and> drop (length (trace w)) (trace w1) = read_events fd 0 rs
            | Returned status w1 \<Rightarrow>
                (status = 0 \<and> sum_list rs = sizeof_inotify_event
                  \<and> drop (length (trace w)) (trace w1) = read_events fd 0 rs)
                \<or> (0 < status \<and> sum_list rs < sizeof_inotify_event
                  \<and> drop (length (trace w)) (trace w1) =
                      read_events fd 0 rs @
                        [(Read fd (int (sum_list rs)) (sizeof_inotify_event - sum_list rs),
                          Err status)])"
      by (cases "read_run n fd 0 w") (auto simp: fit)
  qed
qed

theorem reader_stays_within_record_witness:
  "(\<exists>m. read_run m 3 0 split_record_world =
      Returned 0 \<lparr>kernel = Ret 0 ## sconst (Err EINTR),
        trace = [(Read 3 0 16, Ret 3), (Read 3 3 13, Ret 5), (Read 3 8 8, Ret 8)],
        errno = 0\<rparr>)
   \<and> read_run 5 3 0 stalled_record_world =
      Running 10 \<lparr>kernel = sconst (Ret 0),
        trace = [(Read 3 0 16, Ret 6), (Read 3 6 10, Ret 0), (Read 3 6 10, Ret 4),
                 (Read 3 10 6, Ret 0), (Read 3 10 6, Ret 0)],
        errno = 0\<rparr>
   \<and> (\<exists>rs. sum_list rs \<le> sizeof_inotify_event
        \<and> list_all in_buffer
            (drop (length (trace stalled_record_world))
               (trace (world_after (read_run 5 3 0 stalled_record_world))))
        \<and> (case read_run 5 3 0 stalled_record_world of
              Running len w1 \<Rightarrow>
                len = int (sum_list rs)
                \<and> drop (length (trace stalled_record_world)) (trace w1) = read_events 3 0 rs
            | Returned status w1 \<Rightarrow>
                (status = 0 \<and> sum_list rs = sizeof_inotify_event
                  \<and> drop (length (trace stalled_record_world)) (trace w1) = read_events 3 0 rs)
                \<or> (0 < status \<and> sum_list rs < sizeof_inotify_event
                  \<and> drop (length (trace stalled_record_world)) (trace w1) =
                      read_events 3 0 rs @
                        [(Read 3 (int (sum_list rs)) (sizeof_inotify_event - sum_list rs),
                          Err status)])))"
proof (intro conjI)
  let ?w' = "\<lparr>kernel = Ret 0 ## sconst (Err EINTR),
        trace = [(Read 3 0 16, Ret 3), (Read 3 3 13, Ret 5), (Read 3 8 8, Ret 8)],
        errno = 0\<rparr>"
  have "read_inotify_event 3 split_record_world = Some (0, ?w')"
    by (simp add: read_inotify_event_def read_loop.simps read_step_def split_record_world_def
        world_of_def sys_def size_t_of_def sizeof_inotify_event_def)
  with reader_stays_within_record [where fd = 3 and w = split_record_world and st = 0 and w' = ?w']
  show "\<exists>m. read_run m 3 0 split_record_world = Returned 0 ?w'"
    by blast
next
  show run: "read_run 5 3 0 stalled_record_world =
      Running 10 \<lparr>kernel = sconst (Ret 0),
        trace = [(Read 3 0 16, Ret 6), (Read 3 6 10, Ret 0), (Read 3 6 10, Ret 4),
                 (Read 3 10 6, Ret 0), (Read 3 10 6, Ret 0)],
        errno = 0\<rparr>"
    by (simp add: eval_nat_numeral read_step_def stalled_record_world_def
        world_of_def sys_def size_t_of_def sizeof_inotify_event_def)
  have "list_all posix_reply
    (drop (length (trace stalled_record_world))
       (trace (world_after (read_run 5 3 0 stalled_record_world))))"
    unfolding run by (simp add: stalled_record_world_def world_of_def)
  with reader_stays_within_record [where fd = 3 and w = stalled_record_world and n = 5]
  show "\<exists>rs. sum_list rs \<le> sizeof_inotify_event
        \<and> list_all in_buffer
            (drop (length (trace stalled_record_world))
               (trace (world_after (read_run 5 3 0 stalled_record_world))))
        \<and> (case read_run 5 3 0 stalled_record_world of
              Running len w1 \<Rightarrow>
                len = int (sum_list rs)
                \<and> drop (length (trace stalled_record_world)) (trace w1) = read_events 3 0 rs
            | Returned status w1 \<Rightarrow>
                (status = 0 \<and> sum_list rs = sizeof_inotify_event
                  \<and> drop (length (trace stalled_record_world)) (trace w1) = read_events 3 0 rs)
                \<or> (0 < status \<and> sum_list rs < sizeof_inotify_event
                  \<and> drop (length (trace stalled_record_world)) (trace w1) =
                      read_events 3 0 rs @
                        [(Read 3 (int (sum_list rs)) (sizeof_inotify_event - sum_list rs),
                          Err status)]))"
    by blast
qed

section \<open>The notifier\<close>

text \<open>
  C5: whenever the reader returns success, \<^verbatim>\<open>handle_inotify_event\<close> makes exactly one
  further call, \<^verbatim>\<open>kill(pid, SIGUSR1)\<close>, whatever the record holds: nothing of the record is
  looked at, and its status is \<open>0\<close> or the \<^verbatim>\<open>errno\<close> left by that call.
\<close>

theorem every_record_read_is_signalled:
  assumes "read_inotify_event fd w = Some (0, w1)"
  shows "\<exists>st w2. handle_inotify_event fd pid w = Some (st, w2)
    \<and> trace w2 = trace w1 @ [(Kill pid SIGUSR1, shd (kernel w1))]
    \<and> kernel w2 = stl (kernel w1)
    \<and> (st = 0 \<or> st = errno w2)"
proof -
  obtain r w2 where kill: "sys (Kill pid SIGUSR1) w1 = (r, w2)"
    by (cases "sys (Kill pid SIGUSR1) w1")
  have "handle_inotify_event fd pid w = Some (if r \<noteq> 0 then errno w2 else 0, w2)"
    by (simp add: handle_inotify_event_def assms kill)
  with sys_trace [OF kill] sys_kernel [OF kill] show ?thesis
    by auto
qed

theorem every_record_read_is_signalled_witness:
  "\<exists>st w2. handle_inotify_event 3 4242 whole_record_world = Some (st, w2)
    \<and> trace w2 = [(Read 3 0 16, Ret 16), (Kill 4242 SIGUSR1, Ret 0)]
    \<and> kernel w2 = sconst (Err EINTR)
    \<and> (st = 0 \<or> st = errno w2)"
proof -
  have "read_inotify_event 3 whole_record_world =
    Some (0, \<lparr>kernel = Ret 0 ## sconst (Err EINTR), trace = [(Read 3 0 16, Ret 16)], errno = 0\<rparr>)"
    by (simp add: read_inotify_event_def read_loop.simps read_step_def whole_record_world_def world_of_def
        sys_def size_t_of_def sizeof_inotify_event_def)
  from every_record_read_is_signalled [OF this, of 4242] show ?thesis
    by simp
qed

section \<open>The event loop\<close>

text \<open>
  C4: when \<open>N\<close> events arrive, each record whole, and the signals are delivered, the loop
  handles them one after the other in the order of arrival: a wait, the reads of the
  record, one signal, and only then the next wait. The signals sent are \<open>N\<close>. (The run is
  observed up to a wait that fails.)
\<close>

theorem one_signal_per_event_in_order:
  assumes "list_all complete_event evs"
    "kernel w = concat (map event_replies evs) @- Err e ## k"
  shows "monitor_file fd pid w =
      Some (e, w\<lparr>kernel := k,
        trace := trace w @ concat (map (event_trace fd pid) evs)
                   @ [(Poll fd POLLIN (- 1), Err e)],
        errno := e\<rparr>)
    \<and> length (filter is_kill
          (concat (map (event_trace fd pid) evs) @ [(Poll fd POLLIN (- 1), Err e)]))
        = length evs"
proof
  let ?w1 = "w\<lparr>kernel := Err e ## k,
    trace := trace w @ concat (map (event_trace fd pid) evs)\<rparr>"
  have "monitor_file fd pid w = monitor_file fd pid ?w1"
    using assms by (rule monitor_file_events)
  also have "\<dots> = Some (e, ?w1\<lparr>kernel := k,
      trace := trace ?w1 @ [(Poll fd POLLIN (- 1), Err e)], errno := e\<rparr>)"
    by (rule monitor_file_Err) simp
  finally show "monitor_file fd pid w =
      Some (e, w\<lparr>kernel := k,
        trace := trace w @ concat (map (event_trace fd pid) evs)
                   @ [(Poll fd POLLIN (- 1), Err e)],
        errno := e\<rparr>)"
    by simp
next
  show "length (filter is_kill
          (concat (map (event_trace fd pid) evs) @ [(Poll fd POLLIN (- 1), Err e)]))
        = length evs"
    by (simp add: kills_of_events)
qed

theorem one_signal_per_event_in_order_witness:
  "monitor_file 3 4242 three_events_world =
     Some (4, \<lparr>kernel = sconst (Ret 0),
       trace = [(Poll 3 1 (- 1), Ret 1), (Read 3 0 16, Ret 16), (Kill 4242 10, Ret 0),
                (Poll 3 1 (- 1), Ret 1), (Read 3 0 16, Ret 4), (Read 3 4 12, Ret 12),
                (Kill 4242 10, Ret 0),
                (Poll 3 1 (- 1), Ret 2), (Read 3 0 16, Ret 16), (Kill 4242 10, Ret 0),
                (Poll 3 1 (- 1), Err 4)],
       errno = 4\<rparr>)"
  using one_signal_per_event_in_order
    [of "[(1, [16]), (1, [4, 12]), (2, [16])]" three_events_world 4 "sconst (Ret 0)" 3 4242]
  by (simp add: three_events_world_def world_of_def sizeof_inotify_event_def EINTR_def
      SIGUSR1_def POLLIN_def)

text \<open>
  C7: on a channel on which every wait, every record read and every signal succeeds, for
  ever, \<^verbatim>\<open>monitor_file\<close> never returns; and whenever it does return, the last call it made
  is one that failed.
\<close>

theorem monitor_file_returns_only_on_failure:
  "(pred_stream complete_event evs \<and> kernel w = flat (smap event_replies evs) \<longrightarrow>
      monitor_file fd pid w = None)
   \<and> (monitor_file fd pid w = Some (st, w') \<longrightarrow>
        (\<exists>ys. trace w' = trace w @ ys \<and> ys \<noteq> [] \<and> failed (last ys)))"
proof (intro conjI impI)
  assume a: "pred_stream complete_event evs \<and> kernel w = flat (smap event_replies evs)"
  show "monitor_file fd pid w = None"
  proof (cases "monitor_file fd pid w")
    case (Some r)
    from monitor_file_never_returns [OF this] a show ?thesis
      by blast
  qed simp
next
  assume "monitor_file fd pid w = Some (st, w')"
  from monitor_file_trace [OF this]
  show "\<exists>ys. trace w' = trace w @ ys \<and> ys \<noteq> [] \<and> failed (last ys)"
    by simp
qed

theorem monitor_file_returns_only_on_failure_witness:
  "monitor_file 3 4242 steady_world = None
   \<and> (\<exists>ys. [(Poll 3 1 (- 1), Ret 1), (Read 3 0 16, Ret 16), (Kill 4242 10, Ret 0),
             (Poll 3 1 (- 1), Err 4)] = trace interrupted_wait_world @ ys
          \<and> ys \<noteq> [] \<and> failed (last ys))"
proof
  show "monitor_file 3 4242 steady_world = None"
    using monitor_file_returns_only_on_failure
      [where evs = "sconst (1, [16])" and w = steady_world and fd = 3 and pid = 4242]
    by (simp add: steady_world_def world_of_def stream.pred_set sizeof_inotify_event_def)
next
  let ?w' = "\<lparr>kernel = sconst (Ret 0),
       trace = [(Poll 3 1 (- 1), Ret 1), (Read 3 0 16, Ret 16), (Kill 4242 10, Ret 0),
                (Poll 3 1 (- 1), Err 4)],
       errno = 4\<rparr>"
  have "monitor_file 3 4242 interrupted_wait_world = Some (4, ?w')"
    by (simp add: monitor_file.simps handle_inotify_event_def read_inotify_event_def
        read_loop.simps read_step_def sys_def interrupted_wait_world_def world_of_def size_t_of_def
        sizeof_inotify_event_def EINTR_def SIGUSR1_def POLLIN_def)
  with monitor_file_returns_only_on_failure
      [where w = interrupted_wait_world and fd = 3 and pid = 4242 and st = 4 and w' = ?w']
  show "\<exists>ys. [(Poll 3 1 (- 1), Ret 1), (Read 3 0 16, Ret 16), (Kill 4242 10, Ret 0),
             (Poll 3 1 (- 1), Err 4)] = trace interrupted_wait_world @ ys
          \<and> ys \<noteq> [] \<and> failed (last ys)"
    by simp
qed

text \<open>
  C8: after any number of events, a wait that fails ends the loop with the \<^verbatim>\<open>errno\<close> of that
  wait as its result, and so does a read that fails, in the middle of a record or at its
  start: the failed call is the last call made, it is not repeated, and no signal is sent
  for the record. An interrupted call (\<^verbatim>\<open>EINTR\<close>) is no exception. Once the watch is
  established, the result of the loop is the result of \<^verbatim>\<open>main\<close>.
\<close>

theorem wait_and_read_failures_are_final:
  assumes "list_all complete_event evs"
  shows "(kernel w = concat (map event_replies evs) @- Err e ## k \<longrightarrow>
      monitor_file fd pid w =
        Some (e, w\<lparr>kernel := k,
          trace := trace w @ concat (map (event_trace fd pid) evs)
                     @ [(Poll fd POLLIN (- 1), Err e)],
          errno := e\<rparr>))
    \<and> (e \<noteq> 0 \<and> sum_list rs < sizeof_inotify_event
        \<and> kernel w = concat (map event_replies evs) @- Ret p ## map Ret rs @- Err e ## k \<longrightarrow>
      monitor_file fd pid w =
        Some (e, w\<lparr>kernel := k,
          trace := trace w @ concat (map (event_trace fd pid) evs)
                     @ (Poll fd POLLIN (- 1), Ret p) # read_events fd 0 rs
                     @ [(Read fd (int (sum_list rs)) (sizeof_inotify_event - sum_list rs), Err e)],
          errno := e\<rparr>))
    \<and> (length argv = 3 \<and> kernel w = Ret d ## Ret wd ## k \<longrightarrow>
      main atoi argv w =
        monitor_file (int d) (atoi (argv ! 2))
          (w\<lparr>kernel := k,
             trace := trace w @ [(Inotify_init, Ret d),
               (Inotify_add_watch (int d) (argv ! 1) (IN_MODIFY OR IN_CREATE), Ret wd)]\<rparr>))"
proof (intro conjI impI)
  assume k: "kernel w = concat (map event_replies evs) @- Err e ## k"
  let ?w1 = "w\<lparr>kernel := Err e ## k,
    trace := trace w @ concat (map (event_trace fd pid) evs)\<rparr>"
  have "monitor_file fd pid w = monitor_file fd pid ?w1"
    using assms k by (rule monitor_file_events)
  also have "\<dots> = Some (e, ?w1\<lparr>kernel := k,
      trace := trace ?w1 @ [(Poll fd POLLIN (- 1), Err e)], errno := e\<rparr>)"
    by (rule monitor_file_Err) simp
  finally show "monitor_file fd pid w =
        Some (e, w\<lparr>kernel := k,
          trace := trace w @ concat (map (event_trace fd pid) evs)
                     @ [(Poll fd POLLIN (- 1), Err e)],
          errno := e\<rparr>)"
    by simp
next
  assume a: "e \<noteq> 0 \<and> sum_list rs < sizeof_inotify_event
        \<and> kernel w = concat (map event_replies evs) @- Ret p ## map Ret rs @- Err e ## k"
  let ?w1 = "w\<lparr>kernel := Ret p ## map Ret rs @- Err e ## k,
    trace := trace w @ concat (map (event_trace fd pid) evs)\<rparr>"
  let ?w2 = "?w1\<lparr>kernel := map Ret rs @- Err e ## k,
    trace := trace ?w1 @ [(Poll fd POLLIN (- 1), Ret p)]\<rparr>"
  let ?w3 = "?w2\<lparr>kernel := k,
       trace := trace ?w2 @ read_events fd 0 rs @
         [(Read fd (0 + int (sum_list rs))
             (nat (int sizeof_inotify_event - (0 + int (sum_list rs)))), Err e)],
       errno := e\<rparr>"
  from a have "monitor_file fd pid w = monitor_file fd pid ?w1"
    by (intro monitor_file_events assms) simp
  moreover have poll: "sys (Poll fd POLLIN (- 1)) ?w1 = (int p, ?w2)"
    by (simp add: sys_def)
  moreover from a have "read_loop fd 0 ?w2 = Some (e, ?w3)"
    by (intro read_loop_chunks_Err) simp_all
  then have "handle_inotify_event fd pid ?w2 = Some (e, ?w3)"
    using a by (simp add: handle_inotify_event_def read_inotify_event_def)
  ultimately have "monitor_file fd pid w = Some (e, ?w3)"
    using a by (subst (asm) (2) monitor_file.simps) simp
  moreover have "nat (16 - int (sum_list rs)) = 16 - sum_list rs"
    by simp
  ultimately show "monitor_file fd pid w =
        Some (e, w\<lparr>kernel := k,
          trace := trace w @ concat (map (event_trace fd pid) evs)
                     @ (Poll fd POLLIN (- 1), Ret p) # read_events fd 0 rs
                     @ [(Read fd (int (sum_list rs)) (sizeof_inotify_event - sum_list rs), Err e)],
          errno := e\<rparr>)"
    by (simp add: sizeof_inotify_event_def)
next
  assume "length argv = 3 \<and> kernel w = Ret d ## Ret wd ## k"
  then show "main atoi argv w =
        monitor_file (int d) (atoi (argv ! 2))
          (w\<lparr>kernel := k,
             trace := trace w @ [(Inotify_init, Ret d),
               (Inotify_add_watch (int d) (argv ! 1) (IN_MODIFY OR IN_CREATE), Ret wd)]\<rparr>)"
    by (simp add: main_def parse_argv_def create_file_monitor_def sys_def)
qed

theorem wait_and_read_failures_are_final_witness:
  "monitor_file 3 4242 interrupted_wait_world =
     Some (4, \<lparr>kernel = sconst (Ret 0),
       trace = [(Poll 3 1 (- 1), Ret 1), (Read 3 0 16, Ret 16), (Kill 4242 10, Ret 0),
                (Poll 3 1 (- 1), Err 4)],
       errno = 4\<rparr>)
   \<and> monitor_file 3 4242 interrupted_read_world =
     Some (4, \<lparr>kernel = sconst (Ret 0),
       trace = [(Poll 3 1 (- 1), Ret 1), (Read 3 0 16, Ret 16), (Kill 4242 10, Ret 0),
                (Poll 3 1 (- 1), Ret 1), (Read 3 0 16, Ret 6), (Read 3 6 10, Ret 0),
                (Read 3 6 10, Ret 4), (Read 3 10 6, Err 4)],
       errno = 4\<rparr>)
   \<and> main sample_atoi sample_argv interrupted_start_world =
     Some (4, \<lparr>kernel = sconst (Ret 0),
       trace = [(Inotify_init, Ret 3), (Inotify_add_watch 3 ''/tmp/stats.txt'' 258, Ret 1),
                (Poll 3 1 (- 1), Err 4)],
       errno = 4\<rparr>)"
proof -
  have evs: "list_all complete_event [(1, [16])]"
    by (simp add: sizeof_inotify_event_def)
  have "monitor_file 3 4242 interrupted_wait_world =
     Some (4, \<lparr>kernel = sconst (Ret 0),
       trace = [(Poll 3 1 (- 1), Ret 1), (Read 3 0 16, Ret 16), (Kill 4242 10, Ret 0),
                (Poll 3 1 (- 1), Err 4)],
       errno = 4\<rparr>)"
    using wait_and_read_failures_are_final
      [where evs = "[(1, [16])]" and w = interrupted_wait_world and e = 4
         and k = "sconst (Ret 0)" and fd = 3 and pid = 4242 and rs = "[]" and p = 0
         and argv = "[]" and d = 0 and wd = 0, OF evs]
    by (simp add: interrupted_wait_world_def world_of_def
        sizeof_inotify_event_def EINTR_def SIGUSR1_def POLLIN_def)
  moreover have "monitor_file 3 4242 interrupted_read_world =
     Some (4, \<lparr>kernel = sconst (Ret 0),
       trace = [(Poll 3 1 (- 1), Ret 1), (Read 3 0 16, Ret 16), (Kill 4242 10, Ret 0),
                (Poll 3 1 (- 1), Ret 1), (Read 3 0 16, Ret 6), (Read 3 6 10, Ret 0),
                (Read 3 6 10, Ret 4), (Read 3 10 6, Err 4)],
       errno = 4\<rparr>)"
    using wait_and_read_failures_are_final
      [where evs = "[(1, [16])]" and w = interrupted_read_world and e = 4
         and k = "sconst (Ret 0)" and fd = 3 and pid = 4242 and rs = "[6, 0, 4]" and p = 1
         and argv = "[]" and d = 0 and wd = 0, OF evs]
    by (simp add: interrupted_read_world_def world_of_def
        sizeof_inotify_event_def EINTR_def SIGUSR1_def POLLIN_def)
  moreover have "main sample_atoi sample_argv interrupted_start_world =
     Some (4, \<lparr>kernel = sconst (Ret 0),
       trace = [(Inotify_init, Ret 3), (Inotify_add_watch 3 ''/tmp/stats.txt'' 258, Ret 1),
                (Poll 3 1 (- 1), Err 4)],
       errno = 4\<rparr>)"
    using wait_and_read_failures_are_final
      [where evs = "[]" and w = interrupted_start_world and argv = sample_argv
         and atoi = sample_atoi and d = 3 and wd = 1 and k = "Err EINTR ## sconst (Ret 0)"]
    by (simp add: interrupted_start_world_def world_of_def sample_argv_def sample_atoi_def
        monitor_file_Err IN_MODIFY_def IN_CREATE_def EINTR_def POLLIN_def)
  ultimately show ?thesis
    by blast
qed

section \<open>Start-up\<close>

text \<open>
  C2: the spec says that the exit status is the error code of the operation that failed.
  When \<^verbatim>\<open>inotify_init\<close> fails with \<^verbatim>\<open>EMFILE\<close>, \<^verbatim>\<open>create_file_monitor\<close> returns the \<open>-1\<close> of
  the call and \<^verbatim>\<open>main\<close> returns its negation: the status is \<open>1\<close> while \<^verbatim>\<open>errno\<close> is \<open>24\<close>.
\<close>

theorem main_channel_failure_status:
  "main sample_atoi sample_argv no_channel_world =
     Some (1, \<lparr>kernel = sconst (Ret 0), trace = [(Inotify_init, Err 24)], errno = 24\<rparr>)"
  by (simp add: main_def parse_argv_def sample_argv_def create_file_monitor_def sys_def
      no_channel_world_def world_of_def EMFILE_def)

text \<open>
  C6: with two arguments, when the channel cannot be created \<^verbatim>\<open>main\<close> returns after that
  one call, without registering and without waiting; when the channel is created and the
  registration fails, it returns after these two calls, without waiting.
\<close>

theorem no_wait_without_watch:
  assumes "length argv = 3"
  shows "(kernel w = Err e ## k \<longrightarrow>
      main atoi argv w =
        Some (1, w\<lparr>kernel := k, trace := trace w @ [(Inotify_init, Err e)], errno := e\<rparr>))
    \<and> (kernel w = Ret fd ## Err e ## k \<longrightarrow>
      main atoi argv w =
        Some (1, w\<lparr>kernel := k,
          trace := trace w @ [(Inotify_init, Ret fd),
            (Inotify_add_watch (int fd) (argv ! 1) (IN_MODIFY OR IN_CREATE), Err e)],
          errno := e\<rparr>))"
  using assms
  by (simp add: main_def parse_argv_def create_file_monitor_def sys_def)

theorem no_wait_without_watch_witness:
  "main sample_atoi sample_argv no_channel_world =
     Some (1, \<lparr>kernel = sconst (Ret 0), trace = [(Inotify_init, Err EMFILE)], errno = EMFILE\<rparr>)
   \<and> main sample_atoi sample_argv no_watch_world =
     Some (1, \<lparr>kernel = sconst (Ret 0),
       trace = [(Inotify_init, Ret 3),
         (Inotify_add_watch 3 ''/tmp/stats.txt'' (IN_MODIFY OR IN_CREATE), Err ENOENT)],
       errno = ENOENT\<rparr>)"
  using no_wait_without_watch [of sample_argv no_channel_world EMFILE "sconst (Ret 0)" sample_atoi]
    no_wait_without_watch [of sample_argv no_watch_world ENOENT "sconst (Ret 0)" sample_atoi 3]
  by (simp add: sample_argv_def no_channel_world_def no_watch_world_def world_of_def)

text \<open>
  C9: with two arguments \<^verbatim>\<open>parse_argv\<close> succeeds whatever the text of the second is: the
  process id is what \<^verbatim>\<open>atoi\<close> makes of it, and \<^verbatim>\<open>main\<close> goes on to establish the watch and
  to run the loop with that process id.
\<close>

theorem parse_argv_accepts_any_pid_text:
  assumes "length argv = 3"
  shows "parse_argv atoi argv w = (Inr (argv ! 1, atoi (argv ! 2)), w)
    \<and> main atoi argv w =
        (case create_file_monitor (argv ! 1) w of
           (fd, w1) \<Rightarrow> if fd < 0 then Some (- fd, w1) else monitor_file fd (atoi (argv ! 2)) w1)"
  using assms by (simp add: main_def parse_argv_def)

theorem parse_argv_accepts_any_pid_text_witness:
  "parse_argv sample_atoi unparsed_pid_argv no_target_world
     = (Inr (''/tmp/stats.txt'', 0), no_target_world)
   \<and> main sample_atoi unparsed_pid_argv no_target_world =
       Some (3, \<lparr>kernel = sconst (Ret 0),
         trace = [(Inotify_init, Ret 3), (Inotify_add_watch 3 ''/tmp/stats.txt'' 258, Ret 1),
                  (Poll 3 1 (- 1), Ret 1), (Read 3 0 16, Ret 16), (Kill 0 10, Err 3)],
         errno = 3\<rparr>)"
  using parse_argv_accepts_any_pid_text [of unparsed_pid_argv sample_atoi no_target_world]
  by (simp add: unparsed_pid_argv_def sample_atoi_def no_target_world_def world_of_def
      create_file_monitor_def sys_def monitor_file.simps handle_inotify_event_def
      read_inotify_event_def read_loop.simps read_step_def size_t_of_def sizeof_inotify_event_def
      IN_MODIFY_def IN_CREATE_def POLLIN_def SIGUSR1_def ESRCH_def)

end
